theory Spec2Isabelle
  imports Main
begin

section \<open>Data model\<close>

text \<open>
  The source is \<^verbatim>\<open>falco_rule_evaluator.py\<close>. A token of the infix expression is either
  a Python tuple \<^verbatim>\<open>(field, value)\<close> (an operand) or a Python string (\<^verbatim>\<open>"and"\<close>,
  \<^verbatim>\<open>"or"\<close>, \<^verbatim>\<open>"("\<close>, \<^verbatim>\<open>")"\<close>, or any other string: the builder does not check).
  An event is a Python \<^verbatim>\<open>dict\<close> from field names to values.
\<close>

type_synonym operand = "string \<times> string"

type_synonym event = "string \<rightharpoonup> string"

datatype token = Tup operand | Str string

text \<open>
  \<^verbatim>\<open>class Node\<close>: the attribute \<^verbatim>\<open>data\<close> holds the token the node was built from
  (a tuple for an operand, a string for an operator); \<^verbatim>\<open>left\<close> and \<^verbatim>\<open>right\<close> are
  \<^verbatim>\<open>None\<close> or a node. \<^verbatim>\<open>class Tree\<close> is a dataclass with the single field
  \<^verbatim>\<open>root\<close>, which may be \<^verbatim>\<open>None\<close>.
\<close>

datatype node = Node (data: token) (left: "node option") (right: "node option")

datatype tree = Tree (root: "node option")

text \<open>
  The exceptions the code can raise: \<^verbatim>\<open>IndexError\<close> (\<^verbatim>\<open>list.pop\<close> on an empty list,
  an index out of range) and \<^verbatim>\<open>KeyError\<close> (a lookup in the dictionary \<^verbatim>\<open>process\<close>).
  The specification calls the first a structural error and the second an unknown
  operator. \<^verbatim>\<open>RecursionError\<close> is what the interpreter raises at a call that would
  exceed its recursion limit.
\<close>

datatype error = IndexError | KeyError | RecursionError


section \<open>Leaves\<close>

text \<open>\<^verbatim>\<open>Node.leaf_check\<close>: \<^verbatim>\<open>self.left is None and self.right is None\<close>.\<close>

definition leaf_check :: "node \<Rightarrow> bool" where
  "leaf_check n \<longleftrightarrow> left n = None \<and> right n = None"

text \<open>
  \<^verbatim>\<open>eval_to_bool(data, fes)\<close>: \<^verbatim>\<open>data[0] in fes and data[1] == fes[data[0]]\<close>.
  On a tuple the two components are read. The function is also defined on a string,
  where indexing yields one-character strings and raises \<^verbatim>\<open>IndexError\<close> past the end;
  \<^verbatim>\<open>and\<close> does not evaluate its right operand when the left one is false.
\<close>

fun eval_to_bool :: "token \<Rightarrow> event \<Rightarrow> error + bool" where
  "eval_to_bool (Tup (field, val)) fes =
     Inr (case fes field of None \<Rightarrow> False | Some v \<Rightarrow> val = v)"
| "eval_to_bool (Str []) fes = Inl IndexError"
| "eval_to_bool (Str (c0 # cs)) fes =
     (case fes [c0] of
        None \<Rightarrow> Inr False
      | Some v \<Rightarrow> (case cs of [] \<Rightarrow> Inl IndexError | c1 # _ \<Rightarrow> Inr ([c1] = v)))"


section \<open>The tree builder\<close>

text \<open>
  \<^verbatim>\<open>Tree.construct_tree\<close> keeps two Python lists used as stacks, \<^verbatim>\<open>operator_stack\<close>
  and \<^verbatim>\<open>operand_stack\<close>. In the model the head of a list is the top of the stack
  (the end of the Python list): \<^verbatim>\<open>append\<close> is \<open>#\<close>, \<^verbatim>\<open>pop\<close> removes the head and
  raises \<^verbatim>\<open>IndexError\<close> on the empty list.

  The block that builds an internal node occurs three times in the source (lines 65-74,
  80-89 and 97-106): pop \<^verbatim>\<open>right\<close>, pop the operator, pop \<^verbatim>\<open>left\<close>, push
  \<^verbatim>\<open>Node(operator, left, right)\<close>. At each of the three places the operator stack is
  known to be non-empty, so the operator is passed in by the caller.
\<close>

fun reduce :: "string \<Rightarrow> node list \<Rightarrow> error + node list" where
  "reduce operator (r # l # operand_stack) =
     Inr (Node (Str operator) (Some l) (Some r) # operand_stack)"
| "reduce operator _ = Inl IndexError"

text \<open>
  The loop of the \<^verbatim>\<open>")"\<close> branch (lines 79-89):
  \<^verbatim>\<open>while len(operator_stack) > 0 and operator_stack[-1] != "(":\<close>.
  It returns both stacks as they are when the loop is left.
\<close>

fun while_not_paren :: "string list \<Rightarrow> node list \<Rightarrow> error + (string list \<times> node list)" where
  "while_not_paren [] operand_stack = Inr ([], operand_stack)"
| "while_not_paren (operator # operator_stack) operand_stack =
     (if operator \<noteq> ''(''
      then (case reduce operator operand_stack of
              Inl e \<Rightarrow> Inl e
            | Inr operand_stack' \<Rightarrow> while_not_paren operator_stack operand_stack')
      else Inr (operator # operator_stack, operand_stack))"

text \<open>One iteration of \<^verbatim>\<open>for token in tokens\<close> (lines 51-93), branch by branch.\<close>

fun step :: "token \<Rightarrow> string list \<times> node list \<Rightarrow> error + (string list \<times> node list)" where
  "step (Tup p) (operator_stack, operand_stack) =
     Inr (operator_stack, Node (Tup p) None None # operand_stack)"
| "step (Str s) (operator_stack, operand_stack) =
     (if s = ''or'' \<and> (case operator_stack of [] \<Rightarrow> False | operator # _ \<Rightarrow> operator = ''and'')
      then (case reduce (hd operator_stack) operand_stack of
              Inl e \<Rightarrow> Inl e
            | Inr operand_stack' \<Rightarrow> Inr (s # tl operator_stack, operand_stack'))
      else if s = '')''
      then (case while_not_paren operator_stack operand_stack of
              Inl e \<Rightarrow> Inl e
            | Inr (operator_stack', operand_stack') \<Rightarrow>
                (case operator_stack' of
                   [] \<Rightarrow> Inl IndexError
                 | _ # operator_stack'' \<Rightarrow> Inr (operator_stack'', operand_stack')))
      else Inr (s # operator_stack, operand_stack))"

fun for_tokens :: "token list \<Rightarrow> string list \<times> node list \<Rightarrow> error + (string list \<times> node list)" where
  "for_tokens [] st = Inr st"
| "for_tokens (token # tokens) st =
     (case step token st of Inl e \<Rightarrow> Inl e | Inr st' \<Rightarrow> for_tokens tokens st')"

text \<open>The loop that empties the operator stack (lines 96-106).\<close>

fun empty_the_stack :: "string list \<Rightarrow> node list \<Rightarrow> error + node list" where
  "empty_the_stack [] operand_stack = Inr operand_stack"
| "empty_the_stack (operator # operator_stack) operand_stack =
     (case reduce operator operand_stack of
        Inl e \<Rightarrow> Inl e
      | Inr operand_stack' \<Rightarrow> empty_the_stack operator_stack operand_stack')"

text \<open>\<^verbatim>\<open>construct_tree\<close>: both loops, then \<^verbatim>\<open>cls(root=operand_stack.pop())\<close>.\<close>

definition construct_tree :: "token list \<Rightarrow> error + tree" where
  "construct_tree tokens =
     (case for_tokens tokens ([], []) of
        Inl e \<Rightarrow> Inl e
      | Inr (operator_stack, operand_stack) \<Rightarrow>
          (case empty_the_stack operator_stack operand_stack of
             Inl e \<Rightarrow> Inl e
           | Inr [] \<Rightarrow> Inl IndexError
           | Inr (n # _) \<Rightarrow> Inr (Tree (Some n))))"


section \<open>The tree evaluator\<close>

text \<open>
  The dictionary \<^verbatim>\<open>process = {"and": (lambda x, y: x and y), "or": (lambda x, y: x or y)}\<close>
  and the lookup \<^verbatim>\<open>process[node.data](x, y)\<close>, which raises \<^verbatim>\<open>KeyError\<close> for any other
  key (a tuple is hashable, so a tuple key is a \<^verbatim>\<open>KeyError\<close> too).
\<close>

definition process :: "string \<rightharpoonup> (bool \<Rightarrow> bool \<Rightarrow> bool)" where
  "process = [''and'' \<mapsto> (\<lambda>x y. x \<and> y), ''or'' \<mapsto> (\<lambda>x y. x \<or> y)]"

fun apply_process :: "token \<Rightarrow> bool \<Rightarrow> bool \<Rightarrow> error + bool" where
  "apply_process (Tup p) x y = Inl KeyError"
| "apply_process (Str s) x y =
     (case process s of None \<Rightarrow> Inl KeyError | Some f \<Rightarrow> Inr (f x y))"

text \<open>
  \<^verbatim>\<open>Tree.evaluate(self, fes, node=None)\<close>. The first statement is
  \<^verbatim>\<open>node = node or self.root\<close>; a \<^verbatim>\<open>Node\<close> object is always truthy, so this replaces
  only \<^verbatim>\<open>None\<close> by the root. A recursive call on an absent child therefore starts again
  at the root, and the recursion is not structural: the function is defined as a partial
  function, \<open>None\<close> standing for a call that does not return. Both children are
  evaluated, left first, before the operator is looked up.

  This definition is the function on an interpreter stack of any depth and on the tree
  as a value. The interpreter's recursion limit and the tree as mutable objects are in
  \<open>evaluate_in_store\<close> below.
\<close>

partial_function (option) evaluate :: "tree \<Rightarrow> event \<Rightarrow> node option \<Rightarrow> (error + bool) option" where
  "evaluate self fes node =
     (case (case node of None \<Rightarrow> root self | Some n \<Rightarrow> Some n) of
        None \<Rightarrow> Some (Inr False)
      | Some n \<Rightarrow>
          if leaf_check n then Some (eval_to_bool (data n) fes)
          else
            Option.bind (evaluate self fes (left n)) (\<lambda>rx.
              case rx of
                Inl e \<Rightarrow> Some (Inl e)
              | Inr x \<Rightarrow>
                  Option.bind (evaluate self fes (right n)) (\<lambda>ry.
                    case ry of
                      Inl e \<Rightarrow> Some (Inl e)
                    | Inr y \<Rightarrow> Some (apply_process (data n) x y))))"

declare evaluate.simps [code]

text \<open>
  The same method with the two things the definition above leaves out.

  The objects. A \<^verbatim>\<open>Node\<close> is a mutable object and \<^verbatim>\<open>left\<close>, \<^verbatim>\<open>right\<close>, the parameter
  \<^verbatim>\<open>node\<close> and \<^verbatim>\<open>Tree.root\<close> are references. The store gives the object at every
  address and the \<^verbatim>\<open>root\<close> field of the tree; every attribute is read from the store as
  it is when the statement that reads it runs, and the store is returned with the
  outcome. The method assigns to no attribute, so no equation changes the store.

  The recursion limit. \<open>frames\<close> is the number of Python frames that can still be
  pushed when the method is called. The call itself takes one; the calls of
  \<^verbatim>\<open>node.leaf_check()\<close>, of \<^verbatim>\<open>eval_to_bool\<close> and of a lambda of \<^verbatim>\<open>process\<close> each need one
  more while they run; a call with no frame left raises \<^verbatim>\<open>RecursionError\<close>, which
  nothing catches.
\<close>

type_synonym addr = nat

record node_object =
  data_of :: token
  left_of :: "addr option"
  right_of :: "addr option"

record store =
  objects :: "addr \<Rightarrow> node_object"
  tree_root :: "addr option"

definition leaf_check_object :: "node_object \<Rightarrow> bool" where
  "leaf_check_object obj \<longleftrightarrow> left_of obj = None \<and> right_of obj = None"

fun evaluate_in_store :: "nat \<Rightarrow> store \<Rightarrow> event \<Rightarrow> addr option \<Rightarrow> (error + bool) \<times> store" where
  "evaluate_in_store 0 s fes node = (Inl RecursionError, s)"
| "evaluate_in_store (Suc frames) s fes node =
     (case (case node of None \<Rightarrow> tree_root s | Some a \<Rightarrow> Some a) of
        None \<Rightarrow> (Inr False, s)
      | Some a \<Rightarrow>
          if frames = 0 then (Inl RecursionError, s)
          else if leaf_check_object (objects s a)
          then (eval_to_bool (data_of (objects s a)) fes, s)
          else
            (case evaluate_in_store frames s fes (left_of (objects s a)) of
               (Inl e, s1) \<Rightarrow> (Inl e, s1)
             | (Inr x, s1) \<Rightarrow>
                 (case evaluate_in_store frames s1 fes (right_of (objects s1 a)) of
                    (Inl e, s2) \<Rightarrow> (Inl e, s2)
                  | (Inr y, s2) \<Rightarrow> (apply_process (data_of (objects s2 a)) x y, s2))))"

text \<open>
  The object at address \<open>a\<close> of the store \<open>h\<close>, with the objects it refers to, is the
  tree value \<open>n\<close>: this is how a tree returned by \<open>construct_tree\<close> lies in the store,
  at whatever addresses its nodes were allocated.
\<close>

fun represents :: "(addr \<Rightarrow> node_object) \<Rightarrow> addr \<Rightarrow> node \<Rightarrow> bool" where
  "represents h a (Node d l r) =
     (data_of (h a) = d
      \<and> (case l of
            None \<Rightarrow> left_of (h a) = None
          | Some ln \<Rightarrow> (case left_of (h a) of None \<Rightarrow> False | Some la \<Rightarrow> represents h la ln))
      \<and> (case r of
            None \<Rightarrow> right_of (h a) = None
          | Some rn \<Rightarrow> (case right_of (h a) of None \<Rightarrow> False | Some ra \<Rightarrow> represents h ra rn)))"

text \<open>The number of nodes on the longest path from a node down to a leaf.\<close>

fun node_depth :: "node \<Rightarrow> nat" where
  "node_depth (Node d l r) =
     Suc (max (case l of None \<Rightarrow> 0 | Some n \<Rightarrow> node_depth n)
              (case r of None \<Rightarrow> 0 | Some n \<Rightarrow> node_depth n))"


text \<open>The outcome of a call, without the store it returns.\<close>

definition outcome :: "nat \<Rightarrow> store \<Rightarrow> event \<Rightarrow> addr option \<Rightarrow> error + bool" where
  "outcome frames s fes node = fst (evaluate_in_store frames s fes node)"

text \<open>A reference and a subtree value that are both absent, or the one represents the other.\<close>

fun same_node :: "(addr \<Rightarrow> node_object) \<Rightarrow> addr option \<Rightarrow> node option \<Rightarrow> bool" where
  "same_node h None None = True"
| "same_node h (Some a) (Some n) = represents h a n"
| "same_node h _ _ = False"




text \<open>
  The driver's sample condition (line 150),
  \<^verbatim>\<open>( evt.type=blah or evt.arg.flags=O_APPEND ) and ( evt.arg.flags=O_TRUNC or fd.filename=.bashrc )\<close>,
  as the driver tokenises it (line 153).
\<close>

definition sample_condition :: "token list" where
  "sample_condition =
     [Str ''('', Tup (''evt.type'', ''blah''), Str ''or'', Tup (''evt.arg.flags'', ''O_APPEND''),
      Str '')'', Str ''and'',
      Str ''('', Tup (''evt.arg.flags'', ''O_TRUNC''), Str ''or'', Tup (''fd.filename'', ''.bashrc''),
      Str '')'']"


section \<open>Vocabulary of the specification\<close>

text \<open>
  A syntactically valid infix token sequence over operands, the binary operators
  \<^verbatim>\<open>and\<close>/\<^verbatim>\<open>or\<close> and balanced parentheses.
\<close>

inductive valid :: "token list \<Rightarrow> bool" where
  valid_operand: "valid [Tup p]"
| valid_and: "valid xs \<Longrightarrow> valid ys \<Longrightarrow> valid (xs @ Str ''and'' # ys)"
| valid_or: "valid xs \<Longrightarrow> valid ys \<Longrightarrow> valid (xs @ Str ''or'' # ys)"
| valid_paren: "valid xs \<Longrightarrow> valid (Str ''('' # xs @ [Str '')''])"

fun is_operand :: "token \<Rightarrow> bool" where
  "is_operand (Tup p) = True"
| "is_operand (Str s) = False"

definition is_operator :: "token \<Rightarrow> bool" where
  "is_operator t \<longleftrightarrow> t = Str ''and'' \<or> t = Str ''or''"

text \<open>All nodes of a subtree, the node itself first.\<close>

fun nodes_of :: "node \<Rightarrow> node list" where
  "nodes_of (Node d l r) =
     Node d l r # (case l of None \<Rightarrow> [] | Some n \<Rightarrow> nodes_of n)
                @ (case r of None \<Rightarrow> [] | Some n \<Rightarrow> nodes_of n)"

definition count_leaves :: "node \<Rightarrow> nat" where
  "count_leaves n = length (filter leaf_check (nodes_of n))"

definition count_internal :: "node \<Rightarrow> nat" where
  "count_internal n = length (filter (\<lambda>m. \<not> leaf_check m) (nodes_of n))"

text \<open>
  The invariant of the specification's data model, for one node: a leaf holds an
  operand; any other node holds \<^verbatim>\<open>and\<close> or \<^verbatim>\<open>or\<close> and has both children.
\<close>

definition node_invariant :: "node \<Rightarrow> bool" where
  "node_invariant m =
     (if leaf_check m then is_operand (data m)
      else is_operator (data m) \<and> left m \<noteq> None \<and> right m \<noteq> None)"

text \<open>Every node of the subtree has both children or none.\<close>

fun two_or_none :: "node \<Rightarrow> bool" where
  "two_or_none (Node d l r) =
     (case l of
        None \<Rightarrow> r = None
      | Some a \<Rightarrow> (case r of None \<Rightarrow> False | Some b \<Rightarrow> two_or_none a \<and> two_or_none b))"

text \<open>
  A closing parenthesis with no open one before it: \<open>unmatched_close d ts\<close> holds when,
  with \<open>d\<close> parentheses open, some \<^verbatim>\<open>")"\<close> of \<open>ts\<close> closes more than are open.
\<close>

fun unmatched_close :: "nat \<Rightarrow> token list \<Rightarrow> bool" where
  "unmatched_close d [] = False"
| "unmatched_close d (t # ts) =
     (if t = Str ''('' then unmatched_close (Suc d) ts
      else if t = Str '')'' then (case d of 0 \<Rightarrow> True | Suc d' \<Rightarrow> unmatched_close d' ts)
      else unmatched_close d ts)"

text \<open>
  The conventional reading of an infix sequence. An expression is an operand, a
  conjunction, a disjunction or a parenthesised expression; \<open>tokens_of\<close> writes it as
  a token sequence. The expression is the conventional reading of its token sequence
  when \<^verbatim>\<open>and\<close> binds tighter than \<^verbatim>\<open>or\<close> (no operand of a conjunction is a bare
  disjunction) and operators associate to the left (the right operand of an operator is
  not a bare expression of the same operator).
\<close>

datatype expr = Opd operand | And expr expr | Or expr expr | Paren expr

fun tokens_of :: "expr \<Rightarrow> token list" where
  "tokens_of (Opd p) = [Tup p]"
| "tokens_of (And a b) = tokens_of a @ Str ''and'' # tokens_of b"
| "tokens_of (Or a b) = tokens_of a @ Str ''or'' # tokens_of b"
| "tokens_of (Paren a) = Str ''('' # tokens_of a @ [Str '')'']"

fun is_And :: "expr \<Rightarrow> bool" where
  "is_And (And a b) = True"
| "is_And _ = False"

fun is_Or :: "expr \<Rightarrow> bool" where
  "is_Or (Or a b) = True"
| "is_Or _ = False"

fun conventional :: "expr \<Rightarrow> bool" where
  "conventional (Opd p) = True"
| "conventional (Paren a) = conventional a"
| "conventional (And a b) =
     (conventional a \<and> conventional b \<and> \<not> is_Or a \<and> \<not> is_Or b \<and> \<not> is_And b)"
| "conventional (Or a b) = (conventional a \<and> conventional b \<and> \<not> is_Or b)"

fun expr_value :: "event \<Rightarrow> expr \<Rightarrow> bool" where
  "expr_value fes (Opd (field, val)) = (fes field = Some val)"
| "expr_value fes (And a b) = (expr_value fes a \<and> expr_value fes b)"
| "expr_value fes (Or a b) = (expr_value fes a \<or> expr_value fes b)"
| "expr_value fes (Paren a) = expr_value fes a"

text \<open>
  A left-to-right recogniser for the valid sequences: \<open>e\<close> tells whether an operand (or an
  opening parenthesis) is expected next, \<open>d\<close> is the number of open parentheses.
\<close>

fun scan :: "bool \<Rightarrow> nat \<Rightarrow> token list \<Rightarrow> bool" where
  "scan e d [] = (\<not> e \<and> d = 0)"
| "scan e d (Tup p # ts) = (e \<and> scan False d ts)"
| "scan e d (Str s # ts) =
     (if s = ''('' then e \<and> scan True (Suc d) ts
      else if s = '')'' then \<not> e \<and> 0 < d \<and> scan False (d - 1) ts
      else if s = ''and'' \<or> s = ''or'' then \<not> e \<and> scan True d ts
      else False)"


text \<open>
  The invariant of the builder's two stacks after a prefix of a valid sequence, with
  \<open>e\<close> and \<open>d\<close> as in \<open>scan\<close>: the operator stack holds only \<^verbatim>\<open>and\<close>, \<^verbatim>\<open>or\<close> and
  \<^verbatim>\<open>(\<close>, with one \<^verbatim>\<open>(\<close> for each open parenthesis; the operand stack holds one node
  for each pending operator, and one more when an operator is expected next; every node
  of every subtree on the operand stack satisfies \<open>node_invariant\<close>.
\<close>

definition well_formed :: "node \<Rightarrow> bool" where
  "well_formed n \<longleftrightarrow> (\<forall>m \<in> set (nodes_of n). node_invariant m)"

definition open_parens :: "string list \<Rightarrow> nat" where
  "open_parens ops = length (filter (\<lambda>s. s = ''('') ops)"

definition stack_inv :: "bool \<Rightarrow> nat \<Rightarrow> string list \<Rightarrow> node list \<Rightarrow> bool" where
  "stack_inv e d ops nodes \<longleftrightarrow>
     set ops \<subseteq> {''and'', ''or'', ''(''} \<and>
     length (filter (\<lambda>s. s = ''('') ops) = d \<and>
     length nodes = length (filter (\<lambda>s. s \<noteq> ''('') ops) + (if e then 0 else 1) \<and>
     list_all well_formed nodes"

text \<open>
  Leaves on the operand stack; internal nodes on the operand stack together with the
  operators still waiting on the operator stack.
\<close>

definition leaves_in :: "node list \<Rightarrow> nat" where
  "leaves_in nodes = sum_list (map count_leaves nodes)"

definition internal_in :: "string list \<Rightarrow> node list \<Rightarrow> nat" where
  "internal_in ops nodes =
     sum_list (map count_internal nodes) + length (filter (\<lambda>s. s \<noteq> ''('') ops)"


section \<open>Leaf semantics\<close>

lemma eval_to_bool_operand:
  "eval_to_bool (Tup (field, val)) fes = Inr (fes field = Some val)"
  by (cases "fes field") auto

lemma evaluate_leaf:
  "evaluate self fes (Some (Node d None None)) = Some (eval_to_bool d fes)"
  by (subst evaluate.simps) (simp add: leaf_check_def)

lemma evaluate_internal:
  "evaluate self fes (Some (Node d (Some l) (Some r))) =
     Option.bind (evaluate self fes (Some l)) (\<lambda>rx.
       case rx of
         Inl e \<Rightarrow> Some (Inl e)
       | Inr x \<Rightarrow>
           Option.bind (evaluate self fes (Some r)) (\<lambda>ry.
             case ry of
               Inl e \<Rightarrow> Some (Inl e)
             | Inr y \<Rightarrow> Some (apply_process d x y)))"
  by (subst evaluate.simps) (simp add: leaf_check_def)

lemma evaluate_root:
  "evaluate (Tree (Some n)) fes None = evaluate (Tree (Some n)) fes (Some n)"
  by (subst evaluate.simps, subst (2) evaluate.simps) simp

text \<open>
  C4. Evaluating a leaf that holds the operand \<open>(field, val)\<close> returns true exactly
  when the event has the key \<open>field\<close> and maps it to exactly \<open>val\<close>; it never raises, so
  a missing field gives false. The leaf is evaluated as the root of a tree and as a node
  reached by the recursion.
\<close>

theorem leaf_semantics:
  "eval_to_bool (Tup (field, val)) fes = Inr (field \<in> dom fes \<and> fes field = Some val)
   \<and> evaluate self fes (Some (Node (Tup (field, val)) None None))
       = Some (Inr (field \<in> dom fes \<and> fes field = Some val))
   \<and> evaluate (Tree (Some (Node (Tup (field, val)) None None))) fes None
       = Some (Inr (field \<in> dom fes \<and> fes field = Some val))
   \<and> (field \<notin> dom fes \<longrightarrow>
        evaluate (Tree (Some (Node (Tup (field, val)) None None))) fes None = Some (Inr False))"
proof -
  have eq: "(field \<in> dom fes \<and> fes field = Some val) = (fes field = Some val)"
    by auto
  show ?thesis
    unfolding eq evaluate_root evaluate_leaf eval_to_bool_operand by auto
qed

theorem leaf_semantics_witness:
  "evaluate (Tree (Some (Node (Tup (''evt.type'', ''blah'')) None None)))
      [''evt.type'' \<mapsto> ''blah''] None = Some (Inr True)
   \<and> evaluate (Tree (Some (Node (Tup (''evt.type'', ''blah'')) None None)))
      [''evt.type'' \<mapsto> ''hello''] None = Some (Inr False)
   \<and> evaluate (Tree (Some (Node (Tup (''evt.type'', ''blah'')) None None)))
      [''evt.type'' \<mapsto> ''Blah''] None = Some (Inr False)
   \<and> evaluate (Tree (Some (Node (Tup (''evt.type'', ''blah'')) None None)))
      Map.empty None = Some (Inr False)"
  using leaf_semantics [of "''evt.type''" "''blah''" "[''evt.type'' \<mapsto> ''blah'']"]
    leaf_semantics [of "''evt.type''" "''blah''" "[''evt.type'' \<mapsto> ''hello'']"]
    leaf_semantics [of "''evt.type''" "''blah''" "[''evt.type'' \<mapsto> ''Blah'']"]
    leaf_semantics [of "''evt.type''" "''blah''" "Map.empty"]
  by simp


section \<open>The absent root\<close>

text \<open>
  C9. For every event, evaluating a tree whose root is absent returns false.
\<close>

theorem evaluate_absent_root:
  "evaluate (Tree None) fes None = Some (Inr False)"
  by (subst evaluate.simps) simp


section \<open>Precedence of a single conjunction before a disjunction\<close>

text \<open>
  C2. For all operands \<open>A\<close>, \<open>B\<close>, \<open>C\<close> and every event, the tree built from
  \<^verbatim>\<open>[A, "and", B, "or", C]\<close> has the disjunction at its root, the conjunction of \<open>A\<close> and
  \<open>B\<close> as left child and \<open>C\<close> as right child, and evaluates to the value of
  \<open>(A and B) or C\<close>. That is not the value of \<open>A and (B or C)\<close>: the two differ for
  the operands \<^verbatim>\<open>a=1\<close>, \<^verbatim>\<open>b=1\<close>, \<^verbatim>\<open>c=1\<close> and the event \<^verbatim>\<open>{"c": "1"}\<close>.
\<close>

theorem precedence_and_or:
  "construct_tree [Tup A, Str ''and'', Tup B, Str ''or'', Tup C]
     = Inr (Tree (Some (Node (Str ''or'')
              (Some (Node (Str ''and'') (Some (Node (Tup A) None None))
                                         (Some (Node (Tup B) None None))))
              (Some (Node (Tup C) None None)))))
   \<and> evaluate (Tree (Some (Node (Str ''or'')
              (Some (Node (Str ''and'') (Some (Node (Tup A) None None))
                                         (Some (Node (Tup B) None None))))
              (Some (Node (Tup C) None None))))) fes None
       = Some (Inr (expr_value fes (Or (And (Opd A) (Opd B)) (Opd C))))
   \<and> (\<exists>t. construct_tree [Tup (''a'', ''1''), Str ''and'', Tup (''b'', ''1''), Str ''or'',
                           Tup (''c'', ''1'')] = Inr t
          \<and> evaluate t [''c'' \<mapsto> ''1''] None = Some (Inr True)
          \<and> expr_value [''c'' \<mapsto> ''1'']
                (And (Opd (''a'', ''1'')) (Paren (Or (Opd (''b'', ''1'')) (Opd (''c'', ''1'')))))
              = False)"
proof -
  obtain fa va fb vb fc vc where ops: "A = (fa, va)" "B = (fb, vb)" "C = (fc, vc)"
    by (cases A, cases B, cases C) auto
  have built: "construct_tree [Tup A', Str ''and'', Tup B', Str ''or'', Tup C']
     = Inr (Tree (Some (Node (Str ''or'')
              (Some (Node (Str ''and'') (Some (Node (Tup A') None None))
                                         (Some (Node (Tup B') None None))))
              (Some (Node (Tup C') None None)))))" for A' B' C'
    by (simp add: construct_tree_def)
  have val: "evaluate (Tree (Some (Node (Str ''or'')
              (Some (Node (Str ''and'') (Some (Node (Tup A) None None))
                                         (Some (Node (Tup B) None None))))
              (Some (Node (Tup C) None None))))) fes None
        = Some (Inr (expr_value fes (Or (And (Opd A) (Opd B)) (Opd C))))"
    unfolding evaluate_root evaluate_internal evaluate_leaf ops eval_to_bool_operand
    by (simp add: process_def)
  have diff: "evaluate (Tree (Some (Node (Str ''or'')
              (Some (Node (Str ''and'') (Some (Node (Tup (''a'', ''1'')) None None))
                                         (Some (Node (Tup (''b'', ''1'')) None None))))
              (Some (Node (Tup (''c'', ''1'')) None None))))) [''c'' \<mapsto> ''1''] None
        = Some (Inr True)"
    unfolding evaluate_root evaluate_internal evaluate_leaf
    by (simp add: process_def)
  show ?thesis
    using built [of A B C] built [of "(''a'', ''1'')" "(''b'', ''1'')" "(''c'', ''1'')"] val diff
    by simp
qed


section \<open>The builder on valid sequences\<close>

lemma well_formed_leaf: "well_formed (Node (Tup p) None None)"
  by (simp add: well_formed_def node_invariant_def leaf_check_def)

lemma well_formed_internal:
  "well_formed l \<Longrightarrow> well_formed r \<Longrightarrow> operator = ''and'' \<or> operator = ''or'' \<Longrightarrow>
   well_formed (Node (Str operator) (Some l) (Some r))"
  by (auto simp: well_formed_def node_invariant_def leaf_check_def is_operator_def)

lemma stack_inv_reduce:
  assumes "stack_inv False d (operator # ops) nodes" and "operator \<noteq> ''(''"
  shows "\<exists>r l rest. nodes = r # l # rest
     \<and> stack_inv False d ops (Node (Str operator) (Some l) (Some r) # rest)"
proof -
  from assms have op: "operator = ''and'' \<or> operator = ''or''"
    by (auto simp: stack_inv_def)
  from assms have len: "length nodes = Suc (Suc (length (filter (\<lambda>s. s \<noteq> ''('') ops)))"
    by (simp add: stack_inv_def)
  then obtain r l rest where nodes: "nodes = r # l # rest"
    by (cases nodes; cases "tl nodes") auto
  from assms have wf: "well_formed l" "well_formed r" "list_all well_formed rest"
    unfolding nodes by (simp_all add: stack_inv_def)
  have "stack_inv False d ops (Node (Str operator) (Some l) (Some r) # rest)"
    unfolding stack_inv_def
  proof (intro conjI)
    show "set ops \<subseteq> {''and'', ''or'', ''(''}"
      using assms(1) by (simp add: stack_inv_def)
    show "length (filter (\<lambda>s. s = ''('') ops) = d"
      using assms by (simp add: stack_inv_def)
    show "length (Node (Str operator) (Some l) (Some r) # rest) =
      length (filter (\<lambda>s. s \<noteq> ''('') ops) + (if False then 0 else 1)"
      using len unfolding nodes by simp
    show "list_all well_formed (Node (Str operator) (Some l) (Some r) # rest)"
      using wf op by (simp add: well_formed_internal)
  qed
  with nodes show ?thesis by blast
qed

lemma count_leaves_leaf [simp]: "count_leaves (Node d None None) = 1"
  by (simp add: count_leaves_def leaf_check_def)

lemma count_internal_leaf [simp]: "count_internal (Node d None None) = 0"
  by (simp add: count_internal_def leaf_check_def)

lemma count_leaves_internal [simp]:
  "count_leaves (Node d (Some l) (Some r)) = count_leaves l + count_leaves r"
  by (simp add: count_leaves_def leaf_check_def)

lemma count_internal_internal [simp]:
  "count_internal (Node d (Some l) (Some r)) = Suc (count_internal l + count_internal r)"
  by (simp add: count_internal_def leaf_check_def)

lemma valid_scan: "valid xs \<Longrightarrow> scan True d (xs @ rest) = scan False d rest"
proof (induction xs arbitrary: d rest rule: valid.induct)
  case (valid_operand p)
  show ?case by simp
next
  case (valid_and xs ys)
  then show ?case by simp
next
  case (valid_or xs ys)
  then show ?case by simp
next
  case (valid_paren xs)
  then show ?case by simp
qed

lemma valid_accepted: "valid xs \<Longrightarrow> scan True 0 xs"
  using valid_scan [of xs 0 "[]"] by simp

lemma while_not_paren_inv:
  "stack_inv False d ops nodes \<Longrightarrow> 0 < d \<Longrightarrow>
   \<exists>ops' nodes'. while_not_paren ops nodes = Inr (''('' # ops', nodes')
     \<and> stack_inv False (d - 1) ops' nodes'
     \<and> leaves_in nodes' = leaves_in nodes
     \<and> internal_in ops' nodes' = internal_in ops nodes"
proof (induction ops arbitrary: nodes)
  case Nil
  then show ?case by (simp add: stack_inv_def)
next
  case (Cons operator ops)
  show ?case
  proof (cases "operator = ''(''")
    case True
    with Cons.prems have "stack_inv False (d - 1) ops nodes"
      by (auto simp: stack_inv_def)
    moreover have "internal_in ops nodes = internal_in (operator # ops) nodes"
      using True by (simp add: internal_in_def)
    ultimately show ?thesis
      using True by simp
  next
    case False
    from stack_inv_reduce [OF Cons.prems(1) False] obtain r l rest where
      nodes: "nodes = r # l # rest" and
      inv': "stack_inv False d ops (Node (Str operator) (Some l) (Some r) # rest)"
      by blast
    let ?n = "Node (Str operator) (Some l) (Some r)"
    from Cons.IH [OF inv' Cons.prems(2)] obtain ops' nodes' where
      "while_not_paren ops (?n # rest) = Inr (''('' # ops', nodes')"
      "stack_inv False (d - 1) ops' nodes'"
      "leaves_in nodes' = leaves_in (?n # rest)"
      "internal_in ops' nodes' = internal_in ops (?n # rest)"
      by blast
    then show ?thesis
      using False unfolding nodes by (simp add: leaves_in_def internal_in_def)
  qed
qed

lemma empty_the_stack_inv:
  "stack_inv False 0 ops nodes \<Longrightarrow>
   \<exists>n. empty_the_stack ops nodes = Inr [n]
     \<and> well_formed n
     \<and> count_leaves n = leaves_in nodes
     \<and> count_internal n = internal_in ops nodes"
proof (induction ops arbitrary: nodes)
  case Nil
  then obtain n where "nodes = [n]"
    by (cases nodes) (auto simp: stack_inv_def)
  with Nil show ?case
    by (simp add: stack_inv_def leaves_in_def internal_in_def)
next
  case (Cons operator ops)
  from Cons.prems have np: "operator \<noteq> ''(''"
    by (auto simp: stack_inv_def split: if_splits)
  from stack_inv_reduce [OF Cons.prems(1) np] obtain r l rest where
    nodes: "nodes = r # l # rest" and
    inv': "stack_inv False 0 ops (Node (Str operator) (Some l) (Some r) # rest)"
    by blast
  let ?n = "Node (Str operator) (Some l) (Some r)"
  from Cons.IH [OF inv'] obtain n where
    "empty_the_stack ops (?n # rest) = Inr [n]"
    "well_formed n"
    "count_leaves n = leaves_in (?n # rest)"
    "count_internal n = internal_in ops (?n # rest)"
    by blast
  then show ?case
    using np unfolding nodes by (simp add: leaves_in_def internal_in_def)
qed


lemma step_inv:
  assumes "scan e d (t # ts)" and "stack_inv e d ops nodes"
  shows "\<exists>e' d' ops' nodes'. step t (ops, nodes) = Inr (ops', nodes')
     \<and> stack_inv e' d' ops' nodes' \<and> scan e' d' ts
     \<and> leaves_in nodes' = leaves_in nodes + (if is_operand t then 1 else 0)
     \<and> internal_in ops' nodes' = internal_in ops nodes + (if is_operator t then 1 else 0)"
proof (cases t)
  case (Tup p)
  with assms have e: "e" and sc: "scan False d ts" by simp_all
  have "stack_inv False d ops (Node (Tup p) None None # nodes)"
    using assms(2) e by (simp add: stack_inv_def well_formed_leaf)
  then show ?thesis
    using sc unfolding Tup by (auto simp: leaves_in_def internal_in_def is_operator_def)
next
  case (Str s)
  consider (lp) "s = ''(''" | (rp) "s = '')''" | (a) "s = ''and''" | (o) "s = ''or''"
    using assms(1) unfolding Str by (auto split: if_splits)
  then show ?thesis
  proof cases
    case lp
    with assms(1) Str have e: "e" and sc: "scan True (Suc d) ts" by simp_all
    have "stack_inv True (Suc d) (s # ops) nodes"
      using assms(2) e lp by (simp add: stack_inv_def)
    moreover have "step t (ops, nodes) = Inr (s # ops, nodes)"
      unfolding Str lp by simp
    moreover have "internal_in (s # ops) nodes = internal_in ops nodes"
      using lp by (simp add: internal_in_def)
    moreover have "\<not> is_operand t" "\<not> is_operator t"
      unfolding Str lp by (simp_all add: is_operator_def)
    ultimately show ?thesis using sc by auto
  next
    case rp
    with assms(1) Str have e: "\<not> e" and d: "0 < d" and sc: "scan False (d - 1) ts"
      by simp_all
    from assms(2) e have "stack_inv False d ops nodes" by simp
    from while_not_paren_inv [OF this d] obtain ops' nodes' where
      w: "while_not_paren ops nodes = Inr (''('' # ops', nodes')"
        "stack_inv False (d - 1) ops' nodes'"
        "leaves_in nodes' = leaves_in nodes"
        "internal_in ops' nodes' = internal_in ops nodes"
      by blast
    have "step t (ops, nodes) = Inr (ops', nodes')"
      unfolding Str rp using w(1) by simp
    moreover have "\<not> is_operand t" "\<not> is_operator t"
      unfolding Str rp by (simp_all add: is_operator_def)
    ultimately show ?thesis using w sc by auto
  next
    case a
    with assms(1) Str have e: "\<not> e" and sc: "scan True d ts" by simp_all
    have "stack_inv True d (s # ops) nodes"
      using assms(2) e a by (simp add: stack_inv_def)
    moreover have "step t (ops, nodes) = Inr (s # ops, nodes)"
      unfolding Str a by simp
    moreover have "internal_in (s # ops) nodes = Suc (internal_in ops nodes)"
      using a by (simp add: internal_in_def)
    moreover have "\<not> is_operand t" "is_operator t"
      unfolding Str a by (simp_all add: is_operator_def)
    ultimately show ?thesis using sc by auto
  next
    case o
    with assms(1) Str have e: "\<not> e" and sc: "scan True d ts" by simp_all
    have t: "\<not> is_operand t" "is_operator t"
      unfolding Str o by (simp_all add: is_operator_def)
    show ?thesis
    proof (cases "case ops of [] \<Rightarrow> False | operator # _ \<Rightarrow> operator = ''and''")
      case False
      have "stack_inv True d (s # ops) nodes"
        using assms(2) e o by (simp add: stack_inv_def)
      moreover have "step t (ops, nodes) = Inr (s # ops, nodes)"
        unfolding Str o using False by simp
      moreover have "internal_in (s # ops) nodes = Suc (internal_in ops nodes)"
        using o by (simp add: internal_in_def)
      ultimately show ?thesis using sc t by auto
    next
      case True
      then obtain ops0 where ops: "ops = ''and'' # ops0"
        by (cases ops) auto
      from assms(2) e have "stack_inv False d (''and'' # ops0) nodes"
        unfolding ops by simp
      from stack_inv_reduce [OF this] obtain r l rest where
        nodes: "nodes = r # l # rest" and
        inv': "stack_inv False d ops0 (Node (Str ''and'') (Some l) (Some r) # rest)"
        by auto
      let ?n = "Node (Str ''and'') (Some l) (Some r)"
      have "stack_inv True d (s # ops0) (?n # rest)"
        using inv' o by (simp add: stack_inv_def)
      moreover have "step t (ops, nodes) = Inr (s # ops0, ?n # rest)"
        unfolding Str o ops nodes by simp
      moreover have "internal_in (s # ops0) (?n # rest) = Suc (internal_in ops nodes)"
        unfolding ops nodes o by (simp add: internal_in_def)
      moreover have "leaves_in (?n # rest) = leaves_in nodes"
        unfolding nodes by (simp add: leaves_in_def)
      ultimately show ?thesis using sc t by auto
    qed
  qed
qed

lemma for_tokens_inv:
  "scan e d ts \<Longrightarrow> stack_inv e d ops nodes \<Longrightarrow>
   \<exists>ops' nodes'. for_tokens ts (ops, nodes) = Inr (ops', nodes')
     \<and> stack_inv False 0 ops' nodes'
     \<and> leaves_in nodes' = leaves_in nodes + length (filter is_operand ts)
     \<and> internal_in ops' nodes' = internal_in ops nodes + length (filter is_operator ts)"
proof (induction ts arbitrary: e d ops nodes)
  case Nil
  then show ?case by simp
next
  case (Cons t ts)
  from step_inv [OF Cons.prems] obtain e' d' ops' nodes' where
    s: "step t (ops, nodes) = Inr (ops', nodes')"
      "stack_inv e' d' ops' nodes'" "scan e' d' ts"
      "leaves_in nodes' = leaves_in nodes + (if is_operand t then 1 else 0)"
      "internal_in ops' nodes' = internal_in ops nodes + (if is_operator t then 1 else 0)"
    by blast
  from Cons.IH [OF s(3) s(2)] obtain ops'' nodes'' where
    "for_tokens ts (ops', nodes') = Inr (ops'', nodes'')"
    "stack_inv False 0 ops'' nodes''"
    "leaves_in nodes'' = leaves_in nodes' + length (filter is_operand ts)"
    "internal_in ops'' nodes'' = internal_in ops' nodes' + length (filter is_operator ts)"
    by blast
  with s show ?case by simp
qed

lemma construct_tree_valid:
  assumes "valid tokens"
  shows "\<exists>n. construct_tree tokens = Inr (Tree (Some n)) \<and> well_formed n
     \<and> count_leaves n = length (filter is_operand tokens)
     \<and> count_internal n = length (filter is_operator tokens)"
proof -
  have "stack_inv True 0 [] []"
    by (simp add: stack_inv_def)
  from for_tokens_inv [OF valid_accepted [OF assms] this] obtain ops nodes where
    f: "for_tokens tokens ([], []) = Inr (ops, nodes)" "stack_inv False 0 ops nodes"
      "leaves_in nodes = length (filter is_operand tokens)"
      "internal_in ops nodes = length (filter is_operator tokens)"
    by (auto simp: leaves_in_def internal_in_def)
  from empty_the_stack_inv [OF f(2)] obtain n where
    "empty_the_stack ops nodes = Inr [n]" "well_formed n"
    "count_leaves n = leaves_in nodes" "count_internal n = internal_in ops nodes"
    by blast
  with f show ?thesis
    by (simp add: construct_tree_def)
qed

section \<open>The sample condition\<close>

lemma valid_sample_condition: "valid sample_condition"
proof -
  have l: "valid [Str ''('', Tup (''evt.type'', ''blah''), Str ''or'',
                  Tup (''evt.arg.flags'', ''O_APPEND''), Str '')'']"
    using valid_paren [OF valid_or [OF valid_operand valid_operand]] by simp
  have r: "valid [Str ''('', Tup (''evt.arg.flags'', ''O_TRUNC''), Str ''or'',
                  Tup (''fd.filename'', ''.bashrc''), Str '')'']"
    using valid_paren [OF valid_or [OF valid_operand valid_operand]] by simp
  from valid_and [OF l r] show ?thesis
    by (simp add: sample_condition_def)
qed

lemma construct_tree_sample_condition:
  "construct_tree sample_condition =
     Inr (Tree (Some (Node (Str ''and'')
       (Some (Node (Str ''or'') (Some (Node (Tup (''evt.type'', ''blah'')) None None))
                                 (Some (Node (Tup (''evt.arg.flags'', ''O_APPEND'')) None None))))
       (Some (Node (Str ''or'') (Some (Node (Tup (''evt.arg.flags'', ''O_TRUNC'')) None None))
                                 (Some (Node (Tup (''fd.filename'', ''.bashrc'')) None None)))))))"
  by (simp add: construct_tree_def sample_condition_def)


text \<open>
  C3. For every valid token sequence, \<open>construct_tree\<close> returns a tree (it raises no
  error; the builder is a total function, its loops being structural recursions) whose
  number of leaves is the number of operand tokens and whose number of internal nodes
  is the number of \<^verbatim>\<open>and\<close>/\<^verbatim>\<open>or\<close> tokens.
\<close>

theorem construct_tree_counts:
  "valid tokens \<Longrightarrow>
   \<exists>n. construct_tree tokens = Inr (Tree (Some n))
     \<and> count_leaves n = length (filter is_operand tokens)
     \<and> count_internal n = length (filter is_operator tokens)"
  using construct_tree_valid by blast

theorem construct_tree_counts_witness:
  "valid sample_condition
   \<and> (\<exists>n. construct_tree sample_condition = Inr (Tree (Some n))
         \<and> count_leaves n = 4 \<and> count_internal n = 3)"
proof -
  have ops: "length (filter is_operand sample_condition) = 4"
    by (simp add: sample_condition_def)
  have ors: "length (filter is_operator sample_condition) = 3"
    by (simp add: sample_condition_def is_operator_def)
  from construct_tree_counts [OF valid_sample_condition] show ?thesis
    unfolding ops ors using valid_sample_condition by simp
qed

text \<open>
  C6. Every node of a tree built from a valid token sequence is a leaf exactly when both
  children are absent; a leaf holds an operand; any other node holds \<^verbatim>\<open>and\<close> or
  \<^verbatim>\<open>or\<close> and has both children; so no node has exactly one child.
\<close>

theorem construct_tree_node_invariant:
  "valid tokens \<Longrightarrow>
   \<exists>n. construct_tree tokens = Inr (Tree (Some n))
     \<and> (\<forall>m \<in> set (nodes_of n).
           (leaf_check m \<longleftrightarrow> left m = None \<and> right m = None)
         \<and> (leaf_check m \<longrightarrow> is_operand (data m))
         \<and> (\<not> leaf_check m \<longrightarrow>
                is_operator (data m) \<and> left m \<noteq> None \<and> right m \<noteq> None)
         \<and> ((left m = None) = (right m = None)))"
proof -
  assume "valid tokens"
  from construct_tree_valid [OF this] obtain n where
    c: "construct_tree tokens = Inr (Tree (Some n))" and wf: "well_formed n"
    by blast
  have "(leaf_check m \<longleftrightarrow> left m = None \<and> right m = None)
      \<and> (leaf_check m \<longrightarrow> is_operand (data m))
      \<and> (\<not> leaf_check m \<longrightarrow> is_operator (data m) \<and> left m \<noteq> None \<and> right m \<noteq> None)
      \<and> ((left m = None) = (right m = None))"
    if "m \<in> set (nodes_of n)" for m
  proof -
    from wf that have "node_invariant m"
      by (simp add: well_formed_def)
    then show ?thesis
      by (auto simp: node_invariant_def leaf_check_def split: if_splits)
  qed
  with c show ?thesis by blast
qed

theorem construct_tree_node_invariant_witness:
  "valid [Tup (''a'', ''b''), Str ''and'', Tup (''c'', ''d'')]
   \<and> (\<exists>n. construct_tree [Tup (''a'', ''b''), Str ''and'', Tup (''c'', ''d'')]
             = Inr (Tree (Some n))
         \<and> list_all node_invariant (nodes_of n))"
proof -
  have v: "valid [Tup (''a'', ''b''), Str ''and'', Tup (''c'', ''d'')]"
    using valid_and [OF valid_operand valid_operand] by simp
  from construct_tree_node_invariant [OF v] obtain n where
    c: "construct_tree [Tup (''a'', ''b''), Str ''and'', Tup (''c'', ''d'')]
          = Inr (Tree (Some n))" and
    i: "\<forall>m \<in> set (nodes_of n).
           (leaf_check m \<longleftrightarrow> left m = None \<and> right m = None)
         \<and> (leaf_check m \<longrightarrow> is_operand (data m))
         \<and> (\<not> leaf_check m \<longrightarrow>
                is_operator (data m) \<and> left m \<noteq> None \<and> right m \<noteq> None)
         \<and> ((left m = None) = (right m = None))"
    by blast
  from i have "list_all node_invariant (nodes_of n)"
    unfolding list_all_iff node_invariant_def by simp
  with v c show ?thesis by blast
qed



section \<open>Termination and repeatability of evaluation\<close>

lemma reduce_two_or_none:
  "list_all two_or_none nodes \<Longrightarrow> reduce operator nodes = Inr nodes' \<Longrightarrow>
   list_all two_or_none nodes'"
  by (cases "(operator, nodes)" rule: reduce.cases) auto

lemma while_not_paren_two_or_none:
  "list_all two_or_none nodes \<Longrightarrow> while_not_paren ops nodes = Inr (ops', nodes') \<Longrightarrow>
   list_all two_or_none nodes'"
proof (induction ops arbitrary: nodes)
  case Nil
  then show ?case by simp
next
  case (Cons operator ops)
  show ?case
  proof (cases "operator = ''(''")
    case True
    with Cons.prems show ?thesis by simp
  next
    case False
    with Cons.prems obtain nodes0 where
      r: "reduce operator nodes = Inr nodes0" and
      w: "while_not_paren ops nodes0 = Inr (ops', nodes')"
      by (auto split: sum.splits)
    from Cons.IH [OF reduce_two_or_none [OF Cons.prems(1) r] w] show ?thesis .
  qed
qed

lemma step_two_or_none:
  assumes "list_all two_or_none nodes" and "step t (ops, nodes) = Inr (ops', nodes')"
  shows "list_all two_or_none nodes'"
proof (cases t)
  case (Tup p)
  with assms show ?thesis by auto
next
  case (Str s)
  with assms show ?thesis
    by (auto split: if_splits sum.splits list.splits
        dest: reduce_two_or_none while_not_paren_two_or_none)
qed

lemma for_tokens_two_or_none:
  "list_all two_or_none nodes \<Longrightarrow> for_tokens ts (ops, nodes) = Inr (ops', nodes') \<Longrightarrow>
   list_all two_or_none nodes'"
proof (induction ts arbitrary: ops nodes)
  case Nil
  then show ?case by simp
next
  case (Cons t ts)
  from Cons.prems(2) obtain ops0 nodes0 where
    s: "step t (ops, nodes) = Inr (ops0, nodes0)" and
    f: "for_tokens ts (ops0, nodes0) = Inr (ops', nodes')"
    by (auto split: sum.splits)
  from Cons.IH [OF step_two_or_none [OF Cons.prems(1) s] f] show ?case .
qed

lemma empty_the_stack_two_or_none:
  "list_all two_or_none nodes \<Longrightarrow> empty_the_stack ops nodes = Inr nodes' \<Longrightarrow>
   list_all two_or_none nodes'"
proof (induction ops arbitrary: nodes)
  case Nil
  then show ?case by simp
next
  case (Cons operator ops)
  from Cons.prems(2) obtain nodes0 where
    r: "reduce operator nodes = Inr nodes0" and
    e: "empty_the_stack ops nodes0 = Inr nodes'"
    by (auto split: sum.splits)
  from Cons.IH [OF reduce_two_or_none [OF Cons.prems(1) r] e] show ?case .
qed

lemma construct_tree_two_or_none:
  assumes "construct_tree tokens = Inr t"
  shows "\<exists>n. t = Tree (Some n) \<and> two_or_none n"
proof -
  from assms obtain ops nodes nodes' where
    f: "for_tokens tokens ([], []) = Inr (ops, nodes)" and
    e: "empty_the_stack ops nodes = Inr nodes'"
    by (auto simp: construct_tree_def split: sum.splits)
  have "list_all two_or_none nodes'"
    using empty_the_stack_two_or_none [OF for_tokens_two_or_none [OF _ f] e] by simp
  with assms f e show ?thesis
    by (cases nodes') (auto simp: construct_tree_def)
qed

lemma evaluate_two_or_none:
  "two_or_none n \<Longrightarrow> \<exists>res. evaluate self fes (Some n) = Some res"
proof (induction n rule: two_or_none.induct)
  case (1 d l r)
  show ?case
  proof (cases l)
    case None
    with "1.prems" have "r = None" by simp
    with None show ?thesis by (simp add: evaluate_leaf)
  next
    case (Some a)
    with "1.prems" obtain b where r: "r = Some b" and ab: "two_or_none a" "two_or_none b"
      by (cases r) auto
    from "1.IH"(1) [OF Some r ab(1)] obtain ra where
      a: "evaluate self fes (Some a) = Some ra" by blast
    from "1.IH"(2) [OF Some r ab(2)] obtain rb where
      b: "evaluate self fes (Some b) = Some rb" by blast
    show ?thesis
      unfolding Some r evaluate_internal a b
      by (cases ra; cases rb) simp_all
  qed
qed

lemma evaluate_well_formed:
  "well_formed n \<Longrightarrow> \<exists>b. evaluate self fes (Some n) = Some (Inr b)"
proof (induction n rule: two_or_none.induct)
  case (1 d l r)
  from "1.prems" have inv: "node_invariant (Node d l r)"
    by (simp add: well_formed_def)
  show ?case
  proof (cases "leaf_check (Node d l r)")
    case True
    with inv obtain p where "d = Tup p" "l = None" "r = None"
      by (cases d) (auto simp: node_invariant_def leaf_check_def)
    then show ?thesis
      by (cases p) (simp add: evaluate_leaf)
  next
    case False
    with inv obtain a b where l: "l = Some a" and r: "r = Some b" and op: "is_operator d"
      by (auto simp: node_invariant_def)
    from "1.prems" have wf: "well_formed a" "well_formed b"
      unfolding l r by (simp_all add: well_formed_def)
    from "1.IH"(1) [OF l r wf(1)] obtain x where
      a: "evaluate self fes (Some a) = Some (Inr x)" by blast
    from "1.IH"(2) [OF l r wf(2)] obtain y where
      b: "evaluate self fes (Some b) = Some (Inr y)" by blast
    from op show ?thesis
      unfolding l r evaluate_internal a b is_operator_def
      by (auto simp: process_def)
  qed
qed

text \<open>
  The restart at the root is what a node with a single child would trigger: on the tree
  whose root has a left child only, the call for the absent right child is a call for
  the root again, and the evaluation never returns (CPython ends the unbounded recursion
  with \<^verbatim>\<open>RecursionError\<close>; the model has \<open>None\<close>). Termination on built trees
  therefore rests on what the builder produces.
\<close>

lemma evaluate_one_child_aux:
  assumes "evaluate self fes node = Some y"
  shows "self = Tree (Some (Node d (Some (Node (Tup p) None None)) None)) \<longrightarrow>
     node \<noteq> None \<and> node \<noteq> Some (Node d (Some (Node (Tup p) None None)) None)
     \<and> (node = Some (Node (Tup p) None None) \<longrightarrow> (\<exists>b. y = Inr b))"
proof (rule evaluate.raw_induct [OF _ assms])
  fix ev :: "tree \<Rightarrow> event \<Rightarrow> node option \<Rightarrow> (error + bool) option"
  fix self fes node y
  let ?leaf = "Node (Tup p) None None"
  let ?root = "Node d (Some ?leaf) None"
  assume IH: "\<And>s f n r. ev s f n = Some r \<Longrightarrow>
     s = Tree (Some ?root) \<longrightarrow>
     n \<noteq> None \<and> n \<noteq> Some ?root \<and> (n = Some ?leaf \<longrightarrow> (\<exists>b. r = Inr b))"
  assume body: "(case case node of None \<Rightarrow> root self | Some n \<Rightarrow> Some n of
      None \<Rightarrow> Some (Inr False)
      | Some n \<Rightarrow>
          if leaf_check n then Some (eval_to_bool (data n) fes)
          else Option.bind (ev self fes (left n))
                (\<lambda>rx. case rx of Inl e \<Rightarrow> Some (Inl e)
                      | Inr x \<Rightarrow>
                          Option.bind (ev self fes (right n))
                           (\<lambda>ry. case ry of Inl e \<Rightarrow> Some (Inl e)
                                 | Inr y \<Rightarrow>
                                     Some (apply_process (data n) x y)))) =
     Some y"
  show "self = Tree (Some ?root) \<longrightarrow>
     node \<noteq> None \<and> node \<noteq> Some ?root \<and> (node = Some ?leaf \<longrightarrow> (\<exists>b. y = Inr b))"
  proof
    assume self: "self = Tree (Some ?root)"
    have restart: "\<not> (node = None \<or> node = Some ?root)"
    proof
      assume that: "node = None \<or> node = Some ?root"
      from that self body have b: "Option.bind (ev self fes (Some ?leaf))
                (\<lambda>rx. case rx of Inl e \<Rightarrow> Some (Inl e)
                      | Inr x \<Rightarrow>
                          Option.bind (ev self fes None)
                           (\<lambda>ry. case ry of Inl e \<Rightarrow> Some (Inl e)
                                 | Inr y \<Rightarrow> Some (apply_process d x y))) = Some y"
        by (auto simp: leaf_check_def)
      then obtain rx where l: "ev self fes (Some ?leaf) = Some rx"
        by (auto split: Option.bind_splits)
      with IH [OF l] self obtain x where rx: "rx = Inr x" by auto
      from b l rx obtain ry where "ev self fes None = Some ry"
        by (auto split: Option.bind_splits)
      with IH [OF this] self show False by auto
    qed
    have "node = Some ?leaf \<longrightarrow> (\<exists>b. y = Inr b)"
      using body by (cases p) (auto simp: leaf_check_def)
    with restart show "node \<noteq> None \<and> node \<noteq> Some ?root
       \<and> (node = Some ?leaf \<longrightarrow> (\<exists>b. y = Inr b))"
      by auto
  qed
qed

lemma evaluate_one_child_diverges:
  "evaluate (Tree (Some (Node d (Some (Node (Tup p) None None)) None))) fes None = None"
proof (cases "evaluate (Tree (Some (Node d (Some (Node (Tup p) None None)) None))) fes None")
  case None
  then show ?thesis .
next
  case (Some y)
  from evaluate_one_child_aux [OF Some, of d p] show ?thesis by simp
qed

text \<open>
  C8. For every tree that \<open>construct_tree\<close> returns, on any token sequence, and every
  event, the call \<^verbatim>\<open>tree.evaluate(event)\<close> returns (a verdict or an exception): the
  recursion never reaches an absent child, the only way for it to start again at the
  root.
\<close>

theorem evaluate_terminates:
  "construct_tree tokens = Inr t \<Longrightarrow> \<exists>res. evaluate t fes None = Some res"
proof -
  assume "construct_tree tokens = Inr t"
  from construct_tree_two_or_none [OF this] obtain n where
    t: "t = Tree (Some n)" and n: "two_or_none n"
    by blast
  from evaluate_two_or_none [OF n] show ?thesis
    unfolding t evaluate_root .
qed

theorem evaluate_terminates_witness:
  "construct_tree [Tup (''a'', ''b''), Str ''or'', Tup (''c'', ''d'')]
     = Inr (Tree (Some (Node (Str ''or'') (Some (Node (Tup (''a'', ''b'')) None None))
                                           (Some (Node (Tup (''c'', ''d'')) None None)))))
   \<and> (\<exists>res. evaluate (Tree (Some (Node (Str ''or'') (Some (Node (Tup (''a'', ''b'')) None None))
                                           (Some (Node (Tup (''c'', ''d'')) None None)))))
               [''a'' \<mapsto> ''b''] None = Some res)"
proof -
  have c: "construct_tree [Tup (''a'', ''b''), Str ''or'', Tup (''c'', ''d'')]
     = Inr (Tree (Some (Node (Str ''or'') (Some (Node (Tup (''a'', ''b'')) None None))
                                           (Some (Node (Tup (''c'', ''d'')) None None)))))"
    by (simp add: construct_tree_def)
  from evaluate_terminates [OF c] c show ?thesis by blast
qed

subsection \<open>Evaluation on the object store\<close>

text \<open>
  No call changes the store, so a call is described by its outcome; an outcome other
  than \<^verbatim>\<open>RecursionError\<close> does not depend on the number of frames that were available.
\<close>

lemma evaluate_in_store_unchanged:
  "snd (evaluate_in_store frames s fes node) = s"
proof (induction frames arbitrary: node)
  case 0
  show ?case by simp
next
  case (Suc frames)
  show ?case
  proof (cases "case node of None \<Rightarrow> tree_root s | Some a \<Rightarrow> Some a")
    case None
    then show ?thesis by simp
  next
    case (Some a)
    obtain rl sl where l: "evaluate_in_store frames s fes (left_of (objects s a)) = (rl, sl)"
      by (cases "evaluate_in_store frames s fes (left_of (objects s a))")
    with Suc.IH [of "left_of (objects s a)"] have sl: "sl = s" by simp
    obtain rr sr where r: "evaluate_in_store frames s fes (right_of (objects s a)) = (rr, sr)"
      by (cases "evaluate_in_store frames s fes (right_of (objects s a))")
    with Suc.IH [of "right_of (objects s a)"] have sr: "sr = s" by simp
    show ?thesis
      using Some l r unfolding sl sr
      by (cases rl; cases rr) simp_all
  qed
qed


lemma evaluate_in_store_outcome:
  "evaluate_in_store frames s fes node = (outcome frames s fes node, s)"
  using evaluate_in_store_unchanged [of frames s fes node]
  by (cases "evaluate_in_store frames s fes node") (simp add: outcome_def)

lemma outcome_0: "outcome 0 s fes node = Inl RecursionError"
  by (simp add: outcome_def)

lemma outcome_Suc:
  "outcome (Suc frames) s fes node =
     (case (case node of None \<Rightarrow> tree_root s | Some a \<Rightarrow> Some a) of
        None \<Rightarrow> Inr False
      | Some a \<Rightarrow>
          if frames = 0 then Inl RecursionError
          else if leaf_check_object (objects s a)
          then eval_to_bool (data_of (objects s a)) fes
          else
            (case outcome frames s fes (left_of (objects s a)) of
               Inl e \<Rightarrow> Inl e
             | Inr x \<Rightarrow>
                 (case outcome frames s fes (right_of (objects s a)) of
                    Inl e \<Rightarrow> Inl e
                  | Inr y \<Rightarrow> apply_process (data_of (objects s a)) x y)))"
  unfolding outcome_def [of "Suc frames"]
  by (subst evaluate_in_store.simps)
     (simp del: evaluate_in_store.simps add: evaluate_in_store_outcome
        split: option.splits sum.splits)






lemma represents_children:
  "represents h a (Node d l r) \<longleftrightarrow>
     data_of (h a) = d \<and> same_node h (left_of (h a)) l \<and> same_node h (right_of (h a)) r"
  by (cases l; cases r; cases "left_of (h a)"; cases "right_of (h a)") simp_all

lemma same_node_None: "same_node h ao no \<Longrightarrow> ao = None \<longleftrightarrow> no = None"
  by (cases ao; cases no) simp_all

lemma outcome_refines_evaluate:
  assumes root: "same_node (objects s) (tree_root s) (root self)"
  shows "same_node (objects s) ao no \<Longrightarrow> outcome frames s fes ao \<noteq> Inl RecursionError \<Longrightarrow>
         evaluate self fes no = Some (outcome frames s fes ao)"
proof (induction frames arbitrary: ao no)
  case 0
  then show ?case by (simp add: outcome_0)
next
  case (Suc frames)
  let ?ao = "case ao of None \<Rightarrow> tree_root s | Some a \<Rightarrow> Some a"
  let ?no = "case no of None \<Rightarrow> root self | Some n \<Rightarrow> Some n"
  from Suc.prems(1) root have same: "same_node (objects s) ?ao ?no"
    by (cases ao; cases no) simp_all
  show ?case
  proof (cases ?ao)
    case None
    with same_node_None [OF same] have "?no = None" by simp
    with None show ?thesis
      by (subst evaluate.simps) (simp add: outcome_Suc)
  next
    case (Some a)
    with same obtain n where no: "?no = Some n" and rep: "represents (objects s) a n"
      by (cases ?no) simp_all
    obtain d l r where n: "n = Node d l r" by (cases n)
    from rep have d: "data_of (objects s a) = d"
      and l: "same_node (objects s) (left_of (objects s a)) l"
      and r: "same_node (objects s) (right_of (objects s a)) r"
      unfolding n represents_children by simp_all
    from Suc.prems(2) Some have f: "frames \<noteq> 0"
      by (auto simp: outcome_Suc split: if_splits)
    have leaf: "leaf_check_object (objects s a) \<longleftrightarrow> leaf_check n"
      using same_node_None [OF l] same_node_None [OF r]
      by (simp add: leaf_check_object_def leaf_check_def n)
    show ?thesis
    proof (cases "leaf_check n")
      case True
      with Some no f leaf d show ?thesis
        by (subst evaluate.simps) (simp add: outcome_Suc n)
    next
      case False
      let ?l = "left_of (objects s a)" and ?r = "right_of (objects s a)"
      from Suc.prems(2) Some f False leaf
      have ol: "outcome frames s fes ?l \<noteq> Inl RecursionError"
        by (auto simp: outcome_Suc split: sum.splits)
      note el = Suc.IH [OF l ol]
      show ?thesis
      proof (cases "outcome frames s fes ?l")
        case (Inl e)
        with Some no f False leaf el show ?thesis
          by (subst evaluate.simps) (simp add: outcome_Suc n)
      next
        case (Inr x)
        with Suc.prems(2) Some f False leaf
        have orr: "outcome frames s fes ?r \<noteq> Inl RecursionError"
          by (auto simp: outcome_Suc split: sum.splits)
        note er = Suc.IH [OF r orr]
        from Some no f False leaf el er Inr d show ?thesis
          by (subst evaluate.simps) (simp add: outcome_Suc n split: sum.splits)
      qed
    qed
  qed
qed


text \<open>
  On a tree built from a valid sequence every node is evaluated, so the limit is hit
  whenever no more frames are available than the tree is deep: a chain of a thousand
  operands joined by \<^verbatim>\<open>or\<close>, built as a right-deep tree of depth one thousand, needs
  more than a thousand frames.
\<close>

lemma well_formed_two_or_none: "well_formed n \<Longrightarrow> two_or_none n"
proof (induction n rule: two_or_none.induct)
  case (1 d l r)
  from "1.prems" have inv: "node_invariant (Node d l r)"
    by (simp add: well_formed_def)
  show ?case
  proof (cases l)
    case None
    with inv show ?thesis
      by (auto simp: node_invariant_def leaf_check_def split: if_splits)
  next
    case (Some ln)
    with inv obtain rn where r: "r = Some rn"
      by (auto simp: node_invariant_def leaf_check_def split: if_splits)
    from "1.prems" have wf: "well_formed ln" "well_formed rn"
      unfolding Some r by (simp_all add: well_formed_def)
    from "1.IH"(1) [OF Some r wf(1)] "1.IH"(2) [OF Some r wf(2)] show ?thesis
      unfolding Some r by simp
  qed
qed

lemma outcome_well_formed:
  assumes root: "same_node (objects s) (tree_root s) (root self)"
    and wf: "well_formed n" and rep: "represents (objects s) a n"
  shows "outcome frames s fes (Some a) = Inl RecursionError
       \<or> (\<exists>b. outcome frames s fes (Some a) = Inr b)"
proof (cases "outcome frames s fes (Some a) = Inl RecursionError")
  case True
  then show ?thesis by simp
next
  case False
  have "same_node (objects s) (Some a) (Some n)"
    using rep by simp
  from outcome_refines_evaluate [OF root this False]
    evaluate_well_formed [OF wf, of self fes]
  show ?thesis by auto
qed

lemma outcome_too_few_frames:
  assumes root: "same_node (objects s) (tree_root s) (root self)"
  shows "well_formed n \<Longrightarrow> represents (objects s) a n \<Longrightarrow> frames \<le> node_depth n \<Longrightarrow>
         outcome frames s fes (Some a) = Inl RecursionError"
proof (induction n arbitrary: a frames rule: two_or_none.induct)
  case (1 d l r)
  show ?case
  proof (cases frames)
    case 0
    then show ?thesis by (simp add: outcome_0)
  next
    case (Suc k)
    show ?thesis
    proof (cases "k = 0")
      case True
      then show ?thesis unfolding Suc by (simp add: outcome_Suc)
    next
      case k: False
      from "1.prems"(2) have sl: "same_node (objects s) (left_of (objects s a)) l"
        and sr: "same_node (objects s) (right_of (objects s a)) r"
        unfolding represents_children by simp_all
      from well_formed_two_or_none [OF "1.prems"(1)] have two: "two_or_none (Node d l r)" .
      show ?thesis
      proof (cases l)
        case None
        with two have "r = None" by simp
        with None "1.prems"(3) Suc k show ?thesis by simp
      next
        case (Some ln)
        with two obtain rn where r: "r = Some rn" by (cases r) auto
        from "1.prems"(1) have wf: "well_formed ln" "well_formed rn"
          unfolding Some r by (simp_all add: well_formed_def)
        from sl Some obtain la where la: "left_of (objects s a) = Some la"
          and repl: "represents (objects s) la ln"
          by (cases "left_of (objects s a)") simp_all
        from sr r obtain ra where ra: "right_of (objects s a) = Some ra"
          and repr: "represents (objects s) ra rn"
          by (cases "right_of (objects s a)") simp_all
        have nl: "\<not> leaf_check_object (objects s a)"
          by (simp add: leaf_check_object_def la)
        from "1.prems"(3) have deep: "k \<le> node_depth ln \<or> k \<le> node_depth rn"
          unfolding Suc Some r by auto
        note left = outcome_well_formed [OF root wf(1) repl, of k fes]
        show ?thesis
        proof (cases "outcome k s fes (Some la) = Inl RecursionError")
          case True
          with k nl la show ?thesis
            unfolding Suc by (simp add: outcome_Suc)
        next
          case False
          with left obtain x where x: "outcome k s fes (Some la) = Inr x" by blast
          from False "1.IH"(1) [OF Some r wf(1) repl] have "\<not> k \<le> node_depth ln"
            by blast
          with deep have "k \<le> node_depth rn" by simp
          from "1.IH"(2) [OF Some r wf(2) repr this]
          have "outcome k s fes (Some ra) = Inl RecursionError" .
          with k nl la ra x show ?thesis
            unfolding Suc by (simp add: outcome_Suc)
        qed
      qed
    qed
  qed
qed





section \<open>Malformed input\<close>

lemma reduce_error: "reduce operator nodes = Inl e \<Longrightarrow> e = IndexError"
  by (cases "(operator, nodes)" rule: reduce.cases) auto

lemma while_not_paren_error: "while_not_paren ops nodes = Inl e \<Longrightarrow> e = IndexError"
  by (induction ops arbitrary: nodes) (auto split: if_splits sum.splits dest: reduce_error)

lemma while_not_paren_stops:
  "while_not_paren ops nodes = Inr (ops', nodes') \<Longrightarrow>
   open_parens ops' = open_parens ops \<and> (ops' = [] \<or> hd ops' = ''('')"
  by (induction ops arbitrary: nodes) (auto simp: open_parens_def split: if_splits sum.splits)

lemma step_error: "step t st = Inl e \<Longrightarrow> e = IndexError"
  by (cases "(t, st)" rule: step.cases)
     (auto split: if_splits sum.splits list.splits dest: reduce_error while_not_paren_error)

lemma step_open_parens:
  assumes "step t (ops, nodes) = Inr (ops', nodes')"
  shows "open_parens ops' + (if t = Str '')'' then 1 else 0)
       = open_parens ops + (if t = Str ''('' then 1 else 0)"
proof (cases t)
  case (Tup p)
  with assms show ?thesis by auto
next
  case (Str s)
  show ?thesis
  proof (cases "s = '')''")
    case True
    with assms Str obtain ops0 x where
      w: "while_not_paren ops nodes = Inr (ops0, nodes')" and ops0: "ops0 = x # ops'"
      by (auto split: sum.splits list.splits)
    from while_not_paren_stops [OF w] ops0 have "x = ''(''" "open_parens ops0 = open_parens ops"
      by auto
    with ops0 show ?thesis
      unfolding Str True by (simp add: open_parens_def)
  next
    case False
    with assms Str show ?thesis
      by (cases ops) (auto simp: open_parens_def split: if_splits sum.splits)
  qed
qed

lemma for_tokens_unmatched_close:
  "unmatched_close (open_parens ops) ts \<Longrightarrow> for_tokens ts (ops, nodes) = Inl IndexError"
proof (induction ts arbitrary: ops nodes)
  case Nil
  then show ?case by simp
next
  case (Cons t ts)
  show ?case
  proof (cases "step t (ops, nodes)")
    case (Inl e)
    with step_error [OF Inl] show ?thesis by simp
  next
    case (Inr st)
    obtain ops' nodes' where st: "st = (ops', nodes')" by (cases st)
    note p = step_open_parens [OF Inr [unfolded st]]
    have "unmatched_close (open_parens ops') ts"
    proof (cases "t = Str ''(''")
      case True
      with Cons.prems p show ?thesis by simp
    next
      case nl: False
      show ?thesis
      proof (cases "t = Str '')''")
        case True
        with p have "open_parens ops = Suc (open_parens ops')" by simp
        with Cons.prems True show ?thesis by simp
      next
        case False
        with nl Cons.prems p show ?thesis by simp
      qed
    qed
    from Cons.IH [OF this] show ?thesis
      using Inr st by simp
  qed
qed

text \<open>
  C5. A token sequence in which some \<^verbatim>\<open>")"\<close> has no open \<^verbatim>\<open>"("\<close> before it makes
  \<open>construct_tree\<close> raise \<^verbatim>\<open>IndexError\<close>, the error of popping an empty list (the
  specification's structural error); no tree is returned.
\<close>

theorem unmatched_close_raises:
  "unmatched_close 0 tokens \<Longrightarrow> construct_tree tokens = Inl IndexError"
  using for_tokens_unmatched_close [of "[]" tokens "[]"]
  by (simp add: construct_tree_def open_parens_def)

theorem unmatched_close_raises_witness:
  "unmatched_close 0 [Tup (''a'', ''b''), Str '')'']
   \<and> construct_tree [Tup (''a'', ''b''), Str '')''] = Inl IndexError"
  using unmatched_close_raises [of "[Tup (''a'', ''b''), Str '')'']"] by simp

lemma for_tokens_operands:
  "for_tokens (map Tup ps) (ops, nodes)
     = Inr (ops, rev (map (\<lambda>p. Node (Tup p) None None) ps) @ nodes)"
  by (induction ps arbitrary: nodes) simp_all

text \<open>
  C10. On a sequence of two or more operand tokens and nothing else, \<open>construct_tree\<close>
  raises no error and returns the one-node tree of the last operand: the earlier
  operands are lost, the tree has fewer leaves than the sequence has operands.
\<close>

theorem operands_only_keeps_last:
  "2 \<le> length ps \<Longrightarrow>
   construct_tree (map Tup ps) = Inr (Tree (Some (Node (Tup (last ps)) None None)))
   \<and> count_leaves (Node (Tup (last ps)) None None) < length (filter is_operand (map Tup ps))"
proof -
  assume len: "2 \<le> length ps"
  then have ne: "ps \<noteq> []" by auto
  then have "rev (map (\<lambda>p. Node (Tup p) None None) ps)
      = Node (Tup (last ps)) None None # rev (map (\<lambda>p. Node (Tup p) None None) (butlast ps))"
    by (induction ps rule: rev_induct) simp_all
  then have "construct_tree (map Tup ps) = Inr (Tree (Some (Node (Tup (last ps)) None None)))"
    by (simp add: construct_tree_def for_tokens_operands)
  moreover have "filter is_operand (map Tup ps) = map Tup ps"
    by (induction ps) simp_all
  ultimately show ?thesis using len by simp
qed

theorem operands_only_keeps_last_witness:
  "2 \<le> length [(''a'', ''b''), (''c'', ''d'')]
   \<and> construct_tree [Tup (''a'', ''b''), Tup (''c'', ''d'')]
       = Inr (Tree (Some (Node (Tup (''c'', ''d'')) None None)))"
  using operands_only_keeps_last [of "[(''a'', ''b''), (''c'', ''d'')]"] by simp


section \<open>Chains of conjunctions before a disjunction\<close>

lemma valid_tokens_of: "valid (tokens_of e)"
  by (induction e) (auto intro: valid.intros)

text \<open>
  C1. The claim is that on every valid sequence the built tree evaluates as the
  conventional reading does. The sequence \<^verbatim>\<open>a=1 and b=1 and c=1 or d=1\<close> is valid
  and its conventional reading
  is \<open>((a and b) and c) or d\<close>, true for the event \<^verbatim>\<open>{"d": "1"}\<close>. The builder
  reduces only one pending \<^verbatim>\<open>and\<close> when the \<^verbatim>\<open>or\<close> arrives (an \<^verbatim>\<open>elif\<close>, not a
  loop, lines 64-75), leaves the first \<^verbatim>\<open>and\<close> on the stack below the \<^verbatim>\<open>or\<close>, and
  builds \<open>a and ((b and c) or d)\<close>, which evaluates to false.
\<close>

theorem and_chain_before_or_diverges:
  "valid [Tup (''a'', ''1''), Str ''and'', Tup (''b'', ''1''), Str ''and'', Tup (''c'', ''1''),
          Str ''or'', Tup (''d'', ''1'')]
   \<and> conventional (Or (And (And (Opd (''a'', ''1'')) (Opd (''b'', ''1''))) (Opd (''c'', ''1'')))
                    (Opd (''d'', ''1'')))
   \<and> tokens_of (Or (And (And (Opd (''a'', ''1'')) (Opd (''b'', ''1''))) (Opd (''c'', ''1'')))
                    (Opd (''d'', ''1'')))
       = [Tup (''a'', ''1''), Str ''and'', Tup (''b'', ''1''), Str ''and'', Tup (''c'', ''1''),
          Str ''or'', Tup (''d'', ''1'')]
   \<and> expr_value [''d'' \<mapsto> ''1'']
        (Or (And (And (Opd (''a'', ''1'')) (Opd (''b'', ''1''))) (Opd (''c'', ''1'')))
            (Opd (''d'', ''1''))) = True
   \<and> construct_tree
        [Tup (''a'', ''1''), Str ''and'', Tup (''b'', ''1''), Str ''and'', Tup (''c'', ''1''),
         Str ''or'', Tup (''d'', ''1'')]
       = Inr (Tree (Some (Node (Str ''and'')
            (Some (Node (Tup (''a'', ''1'')) None None))
            (Some (Node (Str ''or'')
               (Some (Node (Str ''and'') (Some (Node (Tup (''b'', ''1'')) None None))
                                          (Some (Node (Tup (''c'', ''1'')) None None))))
               (Some (Node (Tup (''d'', ''1'')) None None)))))))
   \<and> evaluate (Tree (Some (Node (Str ''and'')
            (Some (Node (Tup (''a'', ''1'')) None None))
            (Some (Node (Str ''or'')
               (Some (Node (Str ''and'') (Some (Node (Tup (''b'', ''1'')) None None))
                                          (Some (Node (Tup (''c'', ''1'')) None None))))
               (Some (Node (Tup (''d'', ''1'')) None None)))))))
        [''d'' \<mapsto> ''1''] None = Some (Inr False)"
proof -
  have "valid (tokens_of (Or (And (And (Opd (''a'', ''1'')) (Opd (''b'', ''1'')))
                                   (Opd (''c'', ''1''))) (Opd (''d'', ''1''))))"
    by (rule valid_tokens_of)
  then have "valid [Tup (''a'', ''1''), Str ''and'', Tup (''b'', ''1''), Str ''and'',
                    Tup (''c'', ''1''), Str ''or'', Tup (''d'', ''1'')]"
    by simp
  then show ?thesis
    unfolding evaluate_root evaluate_internal evaluate_leaf
    by (simp add: construct_tree_def process_def)
qed

end
